theory Spec2Isabelle
  imports Main "HOL-Library.Word"
begin

section \<open>HTTPHeaderField.cpp: RFC 7230 header field validation\<close>

text \<open>
  A shallow embedding of \<^verbatim>\<open>src/bun.js/bindings/webcore/HTTPHeaderField.cpp\<close>.
  A \<^verbatim>\<open>char16_t\<close> is a 16-bit word and an \<^verbatim>\<open>LChar\<close> an 8-bit word; a
  \<^verbatim>\<open>String\<close> or \<^verbatim>\<open>StringView\<close> is the list of its code units (an 8-bit string
  is one whose code units are all below \<^verbatim>\<open>0x100\<close>; \<^verbatim>\<open>operator[]\<close> yields a
  \<^verbatim>\<open>char16_t\<close> for both). A string is the value it holds; of the two
  \<^verbatim>\<open>String&&\<close> arguments of the constructor the model also keeps whether the
  call has moved from them.
\<close>

type_synonym char16_t = "16 word"
type_synonym LChar = "8 word"
type_synonym StringView = "char16_t list"

subsection \<open>Character classifiers\<close>

text \<open>
  Modelled from the spec: \<^verbatim>\<open>isASCIIAlpha\<close> and \<^verbatim>\<open>isASCIIDigit\<close> come from
  \<^verbatim>\<open>wtf/ASCIICType.h\<close>, which is not part of the sources at hand; the spec calls
  them "ASCII letter" and "ASCII digit".
\<close>

definition isASCIIAlpha :: "'a::len word \<Rightarrow> bool" where
  "isASCIIAlpha c = ((0x41 \<le> c \<and> c \<le> 0x5A) \<or> (0x61 \<le> c \<and> c \<le> 0x7A))"

definition isASCIIDigit :: "'a::len word \<Rightarrow> bool" where
  "isASCIIDigit c = (0x30 \<le> c \<and> c \<le> 0x39)"

text \<open>
  The two overloads on \<^verbatim>\<open>LChar\<close> (lines 42-60). The character literals are
  written by their ASCII codes, in the order of the source:
  \<^verbatim>\<open>! # $ % & ' * + - . ^ _ ` | ~\<close> and
  \<^verbatim>\<open>( ) , / : ; < = > ? @ [ \ ] { } "\<close>.
\<close>

definition isTokenCharacter_LChar :: "LChar \<Rightarrow> bool" where
  "isTokenCharacter_LChar c =
     (isASCIIAlpha c \<or> isASCIIDigit c
      \<or> c = 0x21 \<or> c = 0x23 \<or> c = 0x24
      \<or> c = 0x25 \<or> c = 0x26 \<or> c = 0x27
      \<or> c = 0x2A \<or> c = 0x2B \<or> c = 0x2D
      \<or> c = 0x2E \<or> c = 0x5E \<or> c = 0x5F
      \<or> c = 0x60 \<or> c = 0x7C \<or> c = 0x7E)"

definition isDelimiter_LChar :: "LChar \<Rightarrow> bool" where
  "isDelimiter_LChar c =
     (c = 0x28 \<or> c = 0x29 \<or> c = 0x2C
      \<or> c = 0x2F \<or> c = 0x3A \<or> c = 0x3B
      \<or> c = 0x3C \<or> c = 0x3D \<or> c = 0x3E
      \<or> c = 0x3F \<or> c = 0x40 \<or> c = 0x5B
      \<or> c = 0x5C \<or> c = 0x5D \<or> c = 0x7B
      \<or> c = 0x7D \<or> c = 0x22)"

text \<open>
  The two overloads on \<^verbatim>\<open>char16_t\<close> (lines 33-40);
  \<^verbatim>\<open>static_cast<LChar>(c)\<close> keeps the low eight bits.
\<close>

definition isTokenCharacter :: "char16_t \<Rightarrow> bool" where
  "isTokenCharacter c = (c < 0x80 \<and> isTokenCharacter_LChar (ucast c))"

definition isDelimiter :: "char16_t \<Rightarrow> bool" where
  "isDelimiter c = (c < 0x80 \<and> isDelimiter_LChar (ucast c))"

definition isVisibleCharacter :: "char16_t \<Rightarrow> bool" where
  "isVisibleCharacter c = (isTokenCharacter c \<or> isDelimiter c)"

definition isWhitespace :: "char16_t \<Rightarrow> bool" where
  "isWhitespace c = (c = 0x20 \<or> c = 0x09)"

text \<open>
  \<^verbatim>\<open>isInRange<min, max>\<close>: the template arguments are \<^verbatim>\<open>size_t\<close> constants
  and the comparison is made on the value of the code unit.
\<close>

definition isInRange :: "nat \<Rightarrow> nat \<Rightarrow> char16_t \<Rightarrow> bool" where
  "isInRange mn mx c = (mn \<le> unat c \<and> unat c \<le> mx)"

definition isOBSText :: "char16_t \<Rightarrow> bool" where
  "isOBSText c = isInRange 0x80 0xFF c"

definition isQuotedTextCharacter :: "char16_t \<Rightarrow> bool" where
  "isQuotedTextCharacter c =
     (isWhitespace c
      \<or> c = 0x21
      \<or> isInRange 0x23 0x5B c
      \<or> isInRange 0x5D 0x7E c
      \<or> isOBSText c)"

definition isQuotedPairSecondOctet :: "char16_t \<Rightarrow> bool" where
  "isQuotedPairSecondOctet c =
     (isWhitespace c
      \<or> isVisibleCharacter c
      \<or> isOBSText c)"

definition isCommentText :: "char16_t \<Rightarrow> bool" where
  "isCommentText c =
     (isWhitespace c
      \<or> isInRange 0x21 0x27 c
      \<or> isInRange 0x2A 0x5B c
      \<or> isInRange 0x5D 0x7E c
      \<or> isOBSText c)"

subsection \<open>Reading a code unit\<close>

text \<open>
  \<^verbatim>\<open>value[i]\<close> is only defined inside the view. The model makes every read a
  checked one, so that a read outside the view is a result of its own. The
  \<^verbatim>\<open>ASSERT\<close> of line 147 is a result of its own as well.
\<close>

datatype error = OutOfBounds | AssertionFailed

definition characterAt :: "StringView \<Rightarrow> nat \<Rightarrow> error + char16_t" where
  "characterAt s i = (if i < length s then Inr (s ! i) else Inl OutOfBounds)"

subsection \<open>The name validator (lines 108-117)\<close>

function isValidName_loop :: "StringView \<Rightarrow> nat \<Rightarrow> error + bool" where
  "isValidName_loop name i =
     (if i < length name then
        (case characterAt name i of
           Inl e \<Rightarrow> Inl e
         | Inr c \<Rightarrow>
             if \<not> isTokenCharacter c then Inr False
             else isValidName_loop name (i + 1))
      else Inr True)"
  by pat_completeness auto
termination
  by (relation "measure (\<lambda>(name, i). length name - i)") auto

declare isValidName_loop.simps [simp del]

definition isValidName :: "StringView \<Rightarrow> error + bool" where
  "isValidName name =
     (if length name = 0 then Inr False
      else isValidName_loop name 0)"

subsection \<open>The value validator (lines 119-210)\<close>

datatype State = OptionalWhitespace | Token | QuotedString | Comment

text \<open>
  One pass through the body of the \<^verbatim>\<open>for\<close> loop, from the local variables
  \<^verbatim>\<open>i\<close>, \<^verbatim>\<open>state\<close>, \<^verbatim>\<open>commentDepth\<close> and \<^verbatim>\<open>hadNonWhitespace\<close>. It
  ends in \<^verbatim>\<open>continue\<close> with the variables as they are then (the loop's
  \<^verbatim>\<open>++i\<close> comes after), or in \<^verbatim>\<open>return\<close>. \<^verbatim>\<open>commentDepth\<close> is a
  \<^verbatim>\<open>size_t\<close>, 64 bits wide on the platforms the program is built for: its
  increment and decrement wrap around. The index is a natural number: it is
  only ever compared with, and bounded by, the length of the view.
\<close>

datatype flow = Continue nat State "64 word" bool | Return bool

definition body :: "StringView \<Rightarrow> nat \<Rightarrow> State \<Rightarrow> 64 word \<Rightarrow> bool \<Rightarrow> error + flow" where
  "body value i state commentDepth hadNonWhitespace =
     (case characterAt value i of
        Inl e \<Rightarrow> Inl e
      | Inr c \<Rightarrow>
         (case state of
            OptionalWhitespace \<Rightarrow>
              if isWhitespace c then
                Inr (Continue i OptionalWhitespace commentDepth hadNonWhitespace)
              else if isTokenCharacter c then
                Inr (Continue i Token commentDepth True)
              else if c = 0x22 then
                Inr (Continue i QuotedString commentDepth True)
              else if c = 0x28 then
                (if commentDepth \<noteq> 0 then Inl AssertionFailed
                 else Inr (Continue i Comment (commentDepth + 1) True))
              else Inr (Return False)
          | Token \<Rightarrow>
              if isTokenCharacter c then
                Inr (Continue i Token commentDepth hadNonWhitespace)
              else
                Inr (Continue i OptionalWhitespace commentDepth hadNonWhitespace)
          | QuotedString \<Rightarrow>
              if c = 0x22 then
                Inr (Continue i OptionalWhitespace commentDepth hadNonWhitespace)
              else if c = 0x5C then
                (if i + 1 = length value then Inr (Return False)
                 else
                   (case characterAt value (i + 1) of
                      Inl e \<Rightarrow> Inl e
                    | Inr c' \<Rightarrow>
                        if \<not> isQuotedPairSecondOctet c' then Inr (Return False)
                        else Inr (Continue (i + 1) QuotedString commentDepth hadNonWhitespace)))
              else if \<not> isQuotedTextCharacter c then Inr (Return False)
              else Inr (Continue i QuotedString commentDepth hadNonWhitespace)
          | Comment \<Rightarrow>
              if c = 0x28 then
                Inr (Continue i Comment (commentDepth + 1) hadNonWhitespace)
              else if c = 0x29 then
                (if commentDepth - 1 = 0 then
                   Inr (Continue i OptionalWhitespace (commentDepth - 1) hadNonWhitespace)
                 else Inr (Continue i Comment (commentDepth - 1) hadNonWhitespace))
              else if c = 0x5C then
                (if i + 1 = length value then Inr (Return False)
                 else
                   (case characterAt value (i + 1) of
                      Inl e \<Rightarrow> Inl e
                    | Inr c' \<Rightarrow>
                        if \<not> isQuotedPairSecondOctet c' then Inr (Return False)
                        else Inr (Continue (i + 1) Comment commentDepth hadNonWhitespace)))
              else if \<not> isCommentText c then Inr (Return False)
              else Inr (Continue i Comment commentDepth hadNonWhitespace)))"

text \<open>The \<^verbatim>\<open>switch\<close> after the loop (lines 200-209).\<close>

definition finish :: "State \<Rightarrow> bool \<Rightarrow> bool" where
  "finish state hadNonWhitespace =
     (case state of
        OptionalWhitespace \<Rightarrow> hadNonWhitespace
      | Token \<Rightarrow> hadNonWhitespace
      | QuotedString \<Rightarrow> False
      | Comment \<Rightarrow> False)"

lemma body_Continue_index:
  assumes "body value i state d h = Inr (Continue i' state' d' h')"
  shows "i' = i \<or> (i' = i + 1 \<and> i + 1 < length value)"
  using assms
  by (cases state)
     (auto simp: body_def characterAt_def split: if_splits sum.splits)

text \<open>
  The \<^verbatim>\<open>for\<close> loop from its head: the test \<^verbatim>\<open>i < value.length()\<close>, the
  body, \<^verbatim>\<open>++i\<close>; once the test fails, the final \<^verbatim>\<open>switch\<close>.
\<close>

function loop :: "StringView \<Rightarrow> nat \<Rightarrow> State \<Rightarrow> 64 word \<Rightarrow> bool \<Rightarrow> error + bool" where
  "loop value i state commentDepth hadNonWhitespace =
     (if i < length value then
        (case body value i state commentDepth hadNonWhitespace of
           Inl e \<Rightarrow> Inl e
         | Inr (Return b) \<Rightarrow> Inr b
         | Inr (Continue i' state' commentDepth' hadNonWhitespace') \<Rightarrow>
             loop value (i' + 1) state' commentDepth' hadNonWhitespace')
      else Inr (finish state hadNonWhitespace))"
  by pat_completeness auto
termination
proof (relation "measure (\<lambda>(value, i, state, d, h). length value - i)")
  show "wf (measure (\<lambda>(value, i, state, d, h). length value - i))"
    by simp
next
  fix "value" :: StringView and i state and d :: "64 word" and h x2 i' state' d' h'
  assume "i < length value" and "body value i state d h = Inr x2"
    and "x2 = Continue i' state' d' h'"
  then have "i' = i \<or> (i' = i + 1 \<and> i + 1 < length value)"
    using body_Continue_index by blast
  with \<open>i < length value\<close>
  show "((value, i' + 1, state', d', h'), (value, i, state, d, h))
          \<in> measure (\<lambda>(value, i, state, d, h). length value - i)"
    by auto
qed

declare loop.simps [simp del]

definition isValidValue :: "StringView \<Rightarrow> error + bool" where
  "isValidValue value = loop value 0 OptionalWhitespace 0 False"

text \<open>
  The configurations the scan passes through at the head of the loop: the
  initial values of the local variables, and from each configuration the one
  after a pass through the body that ended in \<^verbatim>\<open>continue\<close>, and the
  loop's \<^verbatim>\<open>++i\<close>.
\<close>

inductive reachable :: "StringView \<Rightarrow> nat \<Rightarrow> State \<Rightarrow> 64 word \<Rightarrow> bool \<Rightarrow> bool"
  for "value" :: StringView where
  start: "reachable value 0 OptionalWhitespace 0 False"
| iterate: "reachable value i state d h \<Longrightarrow> i < length value \<Longrightarrow>
     body value i state d h = Inr (Continue i' state' d' h') \<Longrightarrow>
     reachable value (i' + 1) state' d' h'"

subsection \<open>The field constructor (lines 214-224)\<close>

text \<open>
  Modelled from the spec: \<^verbatim>\<open>StringView::trim\<close> and \<^verbatim>\<open>isTabOrSpace\<close> come from
  \<^verbatim>\<open>wtf/text\<close>, which is not part of the sources at hand; the spec has "trim
  horizontal whitespace (space, tab) from both ends". The class
  \<^verbatim>\<open>HTTPHeaderField\<close> is declared in a header that is not at hand either; it
  holds the name and the value it is constructed from.
\<close>

definition isTabOrSpace :: "char16_t \<Rightarrow> bool" where
  "isTabOrSpace c = (c = 0x20 \<or> c = 0x09)"

definition trim :: "(char16_t \<Rightarrow> bool) \<Rightarrow> StringView \<Rightarrow> StringView" where
  "trim p s = rev (dropWhile p (rev (dropWhile p s)))"

record HTTPHeaderField =
  m_name :: StringView
  m_value :: StringView

definition create :: "StringView \<Rightarrow> StringView \<Rightarrow> error + HTTPHeaderField option" where
  "create unparsedName unparsedValue =
     (let trimmedName = trim isTabOrSpace unparsedName;
          trimmedValue = trim isTabOrSpace unparsedValue
      in case isValidName trimmedName of
           Inl e \<Rightarrow> Inl e
         | Inr validName \<Rightarrow>
             if \<not> validName then Inr None
             else
               (case isValidValue trimmedValue of
                  Inl e \<Rightarrow> Inl e
                | Inr validValue \<Rightarrow>
                    if \<not> validValue then Inr None
                    else
                      (let name = (if length trimmedName = length unparsedName
                                   then unparsedName else trimmedName);
                           value = (if length trimmedValue = length unparsedValue
                                    then unparsedValue else trimmedValue)
                       in Inr (Some \<lparr>m_name = name, m_value = value\<rparr>))))"



subsection \<open>Writing examples\<close>

text \<open>The code units of an ASCII string literal.\<close>

definition ascii :: "string \<Rightarrow> StringView" where
  "ascii s = map (\<lambda>c. of_nat (of_char c)) s"

section \<open>Auxiliary facts\<close>

subsection \<open>Classifiers\<close>

lemma isTokenCharacter_LChar_ascii: "isTokenCharacter_LChar x \<Longrightarrow> x < 0x80"
  unfolding isTokenCharacter_LChar_def isASCIIAlpha_def isASCIIDigit_def
  by (auto simp: word_le_nat_alt word_less_nat_alt)

lemma isDelimiter_LChar_ascii: "isDelimiter_LChar x \<Longrightarrow> x < 0x80"
  unfolding isDelimiter_LChar_def
  by (auto simp: word_less_nat_alt)

lemma unat_ucast_LChar:
  fixes c :: char16_t
  assumes "c < 0x100"
  shows "unat (ucast c :: LChar) = unat c"
proof -
  from assms have "unat c < 256" by (simp add: word_less_nat_alt)
  then show ?thesis by (simp add: unsigned_ucast_eq take_bit_nat_eq_self)
qed

lemma ucast_LChar_high:
  fixes c :: char16_t
  assumes "0x80 \<le> c" and "c < 0x100"
  shows "\<not> (ucast c :: LChar) < 0x80"
  using assms unat_ucast_LChar [OF assms(2)]
  by (simp add: word_less_nat_alt word_le_nat_alt)

lemma delimiter_not_token: "isDelimiter c \<Longrightarrow> \<not> isTokenCharacter c"
  unfolding isDelimiter_def isTokenCharacter_def isDelimiter_LChar_def
    isTokenCharacter_LChar_def isASCIIAlpha_def isASCIIDigit_def
  by auto

subsection \<open>The name validator\<close>

lemma isValidName_loop_eq:
  "isValidName_loop name i = Inr (\<forall>c \<in> set (drop i name). isTokenCharacter c)"
proof (induction name i rule: isValidName_loop.induct)
  case (1 name i)
  show ?case
  proof (cases "i < length name")
    case True
    then have d: "drop i name = name ! i # drop (i + 1) name"
      by (simp add: Cons_nth_drop_Suc)
    show ?thesis
    proof (cases "isTokenCharacter (name ! i)")
      case tok: True
      have "isValidName_loop name i = isValidName_loop name (i + 1)"
        using True tok by (subst isValidName_loop.simps) (simp add: characterAt_def)
      also have "\<dots> = Inr (\<forall>c \<in> set (drop (i + 1) name). isTokenCharacter c)"
        using "1.IH" [of "name ! i"] True tok by (simp add: characterAt_def)
      finally show ?thesis using d tok by simp
    next
      case False
      have "isValidName_loop name i = Inr False"
        using True False by (subst isValidName_loop.simps) (simp add: characterAt_def)
      then show ?thesis using d False by simp
    qed
  next
    case False
    then show ?thesis by (subst isValidName_loop.simps) simp
  qed
qed

lemma isValidName_eq:
  "isValidName name = Inr (name \<noteq> [] \<and> (\<forall>c \<in> set name. isTokenCharacter c))"
  by (simp add: isValidName_def isValidName_loop_eq)

subsection \<open>The value validator\<close>

lemma body_in_bounds: "i < length value \<Longrightarrow> body value i state d h \<noteq> Inl OutOfBounds"
  by (cases state) (auto simp: body_def characterAt_def split: if_splits)

lemma body_OptionalWhitespace_no_assert:
  "state \<noteq> OptionalWhitespace \<or> d = 0 \<Longrightarrow> body value i state d h \<noteq> Inl AssertionFailed"
  by (cases state) (auto simp: body_def characterAt_def split: if_splits)

lemma body_depth_zero:
  assumes "body value i state d h = Inr (Continue i' state' d' h')"
    and "state \<noteq> Comment \<longrightarrow> d = 0"
  shows "state' \<noteq> Comment \<longrightarrow> d' = 0"
  using assms
  by (cases state) (auto simp: body_def characterAt_def split: if_splits sum.splits)

lemma loop_no_error:
  "state \<noteq> Comment \<longrightarrow> d = 0 \<Longrightarrow> \<exists>b. loop value i state d h = Inr b"
proof (induction "value" i state d h rule: loop.induct)
  case (1 "value" i state d h)
  show ?case
  proof (cases "i < length value")
    case False
    then show ?thesis by (subst loop.simps) simp
  next
    case True
    have nb: "body value i state d h \<noteq> Inl OutOfBounds"
      using True by (rule body_in_bounds)
    have na: "body value i state d h \<noteq> Inl AssertionFailed"
      using "1.prems" by (intro body_OptionalWhitespace_no_assert) auto
    from nb na obtain f where f: "body value i state d h = Inr f"
      by (cases "body value i state d h") (auto intro: error.exhaust)
    show ?thesis
    proof (cases f)
      case (Return b)
      with f True show ?thesis by (subst loop.simps) simp
    next
      case (Continue i' state' d' h')
      have "state' \<noteq> Comment \<longrightarrow> d' = 0"
        using body_depth_zero f Continue "1.prems" by blast
      then have "\<exists>b. loop value (i' + 1) state' d' h' = Inr b"
        using "1.IH" [OF True f Continue] by simp
      with f True Continue show ?thesis by (subst loop.simps) simp
    qed
  qed
qed

lemma isValidValue_no_error: "\<exists>b. isValidValue value = Inr b"
  unfolding isValidValue_def by (rule loop_no_error) simp

lemma reachable_index: "reachable value i state d h \<Longrightarrow> i \<le> length value"
proof (induction rule: reachable.induct)
  case start
  show ?case by simp
next
  case (iterate i state d h i' state' d' h')
  then show ?case using body_Continue_index [of "value" i state d h i' state' d' h'] by auto
qed

lemma reachable_depth_zero: "reachable value i state d h \<Longrightarrow> state \<noteq> Comment \<longrightarrow> d = 0"
proof (induction rule: reachable.induct)
  case start
  show ?case by simp
next
  case (iterate i state d h i' state' d' h')
  then show ?case using body_depth_zero by blast
qed

lemma inc_depth:
  fixes d :: "64 word"
  assumes "unat d < n" and "n < 2 ^ 64"
  shows "unat (d + 1) = unat d + 1"
proof -
  have "unat d + unat (1 :: 64 word) < 2 ^ LENGTH(64)" using assms by simp
  then have "unat (d + 1) = unat d + unat (1 :: 64 word)" by (simp only: unat_add_lem)
  then show ?thesis by simp
qed

lemma body_depth_bound:
  assumes "body value i state d h = Inr (Continue i' state' d' h')"
    and "i < length value" and "length value < 2 ^ 64"
    and "unat d \<le> i" and "state = Comment \<longrightarrow> d \<noteq> 0"
  shows "unat d' \<le> i' + 1 \<and> (state' = Comment \<longrightarrow> d' \<noteq> 0)"
proof -
  have inc: "unat (d + 1) = unat d + 1"
    using assms(2-4) by (intro inc_depth [of d "length value"]) auto
  then have nz: "d + 1 \<noteq> 0" by (metis Suc_eq_plus1 nat.distinct(1) unat_0)
  have dec: "d \<noteq> 0 \<Longrightarrow> unat (d - 1) = unat d - 1" by (rule unat_minus_one)
  show ?thesis
    using assms(1,4,5) inc nz dec
    by (cases state) (auto simp: body_def characterAt_def split: if_splits sum.splits)
qed

lemma reachable_depth_bound:
  "reachable value i state d h \<Longrightarrow> length value < 2 ^ 64 \<Longrightarrow>
     unat d \<le> i \<and> (state = Comment \<longrightarrow> d \<noteq> 0)"
proof (induction rule: reachable.induct)
  case start
  show ?case by simp
next
  case (iterate i state d h i' state' d' h')
  then show ?case using body_depth_bound [of "value" i state d h i' state' d' h'] by blast
qed

lemma loop_reachable: "reachable value i state d h \<Longrightarrow> loop value i state d h = isValidValue value"
proof (induction rule: reachable.induct)
  case start
  show ?case by (simp add: isValidValue_def)
next
  case (iterate i state d h i' state' d' h')
  have "loop value i state d h = loop value (i' + 1) state' d' h'"
    using iterate.hyps(2,3) by (subst loop.simps) simp
  with iterate.IH show ?case by simp
qed

lemma loop_accepts_final:
  "reachable value i state d h \<Longrightarrow> loop value i state d h = Inr True \<Longrightarrow>
     \<exists>state' d' h'. reachable value (length value) state' d' h' \<and> finish state' h'"
proof (induction "value" i state d h rule: loop.induct)
  case (1 "value" i state d h)
  show ?case
  proof (cases "i < length value")
    case False
    with reachable_index [OF "1.prems"(1)] have "i = length value" by simp
    moreover have "finish state h" using False "1.prems"(2) by (subst (asm) loop.simps) simp
    ultimately show ?thesis using "1.prems"(1) by blast
  next
    case True
    show ?thesis
    proof (cases "body value i state d h")
      case (Inl e)
      with True "1.prems"(2) show ?thesis by (subst (asm) loop.simps) simp
    next
      case (Inr f)
      show ?thesis
      proof (cases f)
        case (Return b)
        with Inr True "1.prems"(2) have b by (subst (asm) loop.simps) simp
        with Return Inr have "body value i state d h = Inr (Return True)" by simp
        then have False
          by (cases state) (auto simp: body_def characterAt_def split: if_splits sum.splits)
        then show ?thesis ..
      next
        case (Continue i' state' d' h')
        have r: "reachable value (i' + 1) state' d' h'"
          using reachable.iterate [OF "1.prems"(1) True] Inr Continue by simp
        have "loop value (i' + 1) state' d' h' = Inr True"
          using "1.prems"(2) True Inr Continue by (subst (asm) loop.simps) simp
        with r show ?thesis using "1.IH" [OF True Inr Continue] by blast
      qed
    qed
  qed
qed

lemma loop_whitespace_only:
  "\<forall>c \<in> set value. isWhitespace c \<Longrightarrow> loop value i OptionalWhitespace d False = Inr False"
proof (induction "length value - i" arbitrary: i)
  case 0
  then show ?case by (subst loop.simps) (simp add: finish_def)
next
  case (Suc n)
  then have lt: "i < length value" by simp
  with Suc.prems have "isWhitespace (value ! i)" by simp
  then have "body value i OptionalWhitespace d False = Inr (Continue i OptionalWhitespace d False)"
    using lt by (simp add: body_def characterAt_def)
  then have "loop value i OptionalWhitespace d False = loop value (i + 1) OptionalWhitespace d False"
    using lt by (subst loop.simps) simp
  also have "\<dots> = Inr False" using Suc by (intro Suc.hyps) auto
  finally show ?case .
qed


lemma loop_at_end: "length value \<le> i \<Longrightarrow> loop value i state d h = Inr (finish state h)"
  by (subst loop.simps) simp

lemma finish_eq: "finish state h = ((state = OptionalWhitespace \<or> state = Token) \<and> h)"
  by (cases state) (simp_all add: finish_def)

lemma loop_step:
  "i < length value \<Longrightarrow> body value i state d h = Inr (Continue i' state' d' h') \<Longrightarrow>
     loop value i state d h = loop value (i' + 1) state' d' h'"
  by (subst loop.simps) simp



lemma loop_open_paren:
  "i < length value \<Longrightarrow> value ! i = 0x28 \<Longrightarrow>
     loop value i Comment d h = loop value (i + 1) Comment (d + 1) h"
  by (intro loop_step) (simp_all add: body_def characterAt_def)

lemma loop_close_paren:
  "i < length value \<Longrightarrow> value ! i = 0x29 \<Longrightarrow>
     loop value i Comment d h
       = loop value (i + 1) (if d - 1 = 0 then OptionalWhitespace else Comment) (d - 1) h"
  by (intro loop_step) (simp_all add: body_def characterAt_def)

lemma nested_closing:
  fixes n :: nat
  assumes "n < 2 ^ 64"
  shows "0 < k \<Longrightarrow> k \<le> n \<Longrightarrow>
     loop (replicate n 0x28 @ replicate n 0x29) (2 * n - k) Comment (of_nat k) True = Inr True"
proof (induction k)
  case 0
  then show ?case by simp
next
  case (Suc k)
  let ?v = "replicate n 0x28 @ replicate n (0x29 :: char16_t)"
  have lt: "2 * n - Suc k < length ?v" using Suc.prems by simp
  have ch: "?v ! (2 * n - Suc k) = 0x29" using Suc.prems by (simp add: nth_append)
  have step: "loop ?v (2 * n - Suc k) Comment (of_nat (Suc k)) True
      = loop ?v (2 * n - Suc k + 1) (if (of_nat (Suc k) :: 64 word) - 1 = 0 then OptionalWhitespace else Comment)
          (of_nat (Suc k) - 1) True"
    using lt ch by (rule loop_close_paren)
  have idx: "2 * n - Suc k + 1 = 2 * n - k" using Suc.prems by simp
  have dep: "(of_nat (Suc k) :: 64 word) - 1 = of_nat k" by simp
  show ?case
  proof (cases "k = 0")
    case True
    have "loop ?v (2 * n) OptionalWhitespace 0 True = Inr True"
      by (simp add: loop_at_end finish_def)
    with step idx dep True show ?thesis by simp
  next
    case False
    then have "(of_nat k :: 64 word) \<noteq> 0"
      using Suc.prems assms by (intro of_nat_neq_0) auto
    with step idx dep have "loop ?v (2 * n - Suc k) Comment (of_nat (Suc k)) True
      = loop ?v (2 * n - k) Comment (of_nat k) True" by simp
    also have "\<dots> = Inr True" using False Suc.prems by (intro Suc.IH) auto
    finally show ?thesis .
  qed
qed

lemma nested_opening:
  fixes n :: nat
  assumes "n < 2 ^ 64"
  shows "0 < k \<Longrightarrow> k \<le> n \<Longrightarrow>
     loop (replicate n 0x28 @ replicate n 0x29) k Comment (of_nat k) True = Inr True"
proof (induction "n - k" arbitrary: k)
  case 0
  then have "k = n" by simp
  with nested_closing [OF assms, of n] 0 show ?case by simp
next
  case (Suc m)
  let ?v = "replicate n 0x28 @ replicate n (0x29 :: char16_t)"
  from Suc have lt: "k < n" by simp
  then have "loop ?v k Comment (of_nat k) True = loop ?v (k + 1) Comment (of_nat k + 1) True"
    by (intro loop_open_paren) (simp_all add: nth_append)
  also have "\<dots> = loop ?v (Suc k) Comment (of_nat (Suc k)) True"
    by (simp add: add.commute)
  also have "\<dots> = Inr True" using Suc lt by (intro Suc.hyps) auto
  finally show ?case .
qed

lemma nested_comment_accepted:
  fixes n :: nat
  assumes "0 < n" and "n < 2 ^ 64"
  shows "isValidValue (replicate n 0x28 @ replicate n 0x29) = Inr True"
proof -
  let ?v = "replicate n 0x28 @ replicate n (0x29 :: char16_t)"
  have "body ?v 0 OptionalWhitespace 0 False = Inr (Continue 0 Comment (0 + 1) True)"
    using assms(1)
    by (simp add: body_def characterAt_def nth_append isWhitespace_def isTokenCharacter_def
          isTokenCharacter_LChar_def isASCIIAlpha_def isASCIIDigit_def)
  then have "loop ?v 0 OptionalWhitespace 0 False = loop ?v (0 + 1) Comment (0 + 1) True"
    using assms(1) by (intro loop_step) simp_all
  also have "\<dots> = loop ?v 1 Comment (of_nat 1) True" by simp
  also have "\<dots> = Inr True" using assms by (intro nested_opening) auto
  finally show ?thesis by (simp add: isValidValue_def)
qed

lemma reachable_example:
  "reachable (ascii ''(a(b)) ('') 3 Comment 2 True
   \<and> reachable (ascii ''(a(b)) ('') 7 OptionalWhitespace 0 True"
proof -
  define v where "v = ascii ''(a(b)) (''"
  have l: "length v = 8" by (simp add: v_def ascii_def)
  have b0: "body v 0 OptionalWhitespace 0 False = Inr (Continue 0 Comment 1 True)"
    and b1: "body v 1 Comment 1 True = Inr (Continue 1 Comment 1 True)"
    and b2: "body v 2 Comment 1 True = Inr (Continue 2 Comment 2 True)"
    and b3: "body v 3 Comment 2 True = Inr (Continue 3 Comment 2 True)"
    and b4: "body v 4 Comment 2 True = Inr (Continue 4 Comment 1 True)"
    and b5: "body v 5 Comment 1 True = Inr (Continue 5 OptionalWhitespace 0 True)"
    and b6: "body v 6 OptionalWhitespace 0 True = Inr (Continue 6 OptionalWhitespace 0 True)"
    unfolding v_def by code_simp+
  have r0: "reachable v 0 OptionalWhitespace 0 False" by (rule reachable.start)
  have "reachable v (0 + 1) Comment 1 True"
    by (rule reachable.iterate [OF r0 _ b0]) (simp add: l)
  then have r1: "reachable v 1 Comment 1 True" by simp
  have "reachable v (1 + 1) Comment 1 True"
    by (rule reachable.iterate [OF r1 _ b1]) (simp add: l)
  then have r2: "reachable v 2 Comment 1 True" by (simp add: numeral_2_eq_2)
  have "reachable v (2 + 1) Comment 2 True"
    by (rule reachable.iterate [OF r2 _ b2]) (simp add: l)
  then have r3: "reachable v 3 Comment 2 True" by simp
  have "reachable v (3 + 1) Comment 2 True"
    by (rule reachable.iterate [OF r3 _ b3]) (simp add: l)
  then have r4: "reachable v 4 Comment 2 True" by simp
  have "reachable v (4 + 1) Comment 1 True"
    by (rule reachable.iterate [OF r4 _ b4]) (simp add: l)
  then have r5: "reachable v 5 Comment 1 True" by simp
  have "reachable v (5 + 1) OptionalWhitespace 0 True"
    by (rule reachable.iterate [OF r5 _ b5]) (simp add: l)
  then have r6: "reachable v 6 OptionalWhitespace 0 True" by simp
  have "reachable v (6 + 1) OptionalWhitespace 0 True"
    by (rule reachable.iterate [OF r6 _ b6]) (simp add: l)
  then have r7: "reachable v 7 OptionalWhitespace 0 True" by simp
  from r3 r7 show ?thesis unfolding v_def by (intro conjI)
qed

text \<open>
  A code unit from \<^verbatim>\<open>0x100\<close> on is in none of the classes, and a pass through
  the body that reads it in a state other than \<^verbatim>\<open>Token\<close> returns false.
\<close>

lemma wide_unit_classes:
  assumes "0x100 \<le> c"
  shows "\<not> isWhitespace c \<and> \<not> isTokenCharacter c \<and> \<not> isDelimiter c \<and> \<not> isOBSText c
       \<and> \<not> isVisibleCharacter c \<and> \<not> isQuotedTextCharacter c
       \<and> \<not> isQuotedPairSecondOctet c \<and> \<not> isCommentText c"
proof -
  from assms have u: "256 \<le> unat c" by (simp add: word_le_nat_alt)
  then have n: "\<not> c < 0x80" by (simp add: word_less_nat_alt)
  from u have e: "c \<noteq> 0x20" "c \<noteq> 0x09" "c \<noteq> 0x21" by auto
  show ?thesis
    using u n e
    by (simp add: isWhitespace_def isTokenCharacter_def isDelimiter_def isOBSText_def
          isInRange_def isVisibleCharacter_def isQuotedTextCharacter_def
          isQuotedPairSecondOctet_def isCommentText_def)
qed

lemma wide_unit_rejected_outside_Token:
  assumes "i < length value" and "0x100 \<le> value ! i" and "state \<noteq> Token"
  shows "body value i state d h = Inr (Return False)"
proof -
  from assms(2) have "256 \<le> unat (value ! i)" by (simp add: word_le_nat_alt)
  then have "value ! i \<noteq> 0x22" "value ! i \<noteq> 0x28" "value ! i \<noteq> 0x29" "value ! i \<noteq> 0x5C"
    by auto
  then show ?thesis
    using assms(1,3) wide_unit_classes [OF assms(2)]
    by (cases state) (simp_all add: body_def characterAt_def)
qed

subsection \<open>Trimming\<close>

lemma dropWhile_same_length: "length (dropWhile p xs) = length xs \<Longrightarrow> dropWhile p xs = xs"
  by (metis append_self_conv2 length_0_conv length_append add_cancel_right_left takeWhile_dropWhile_id
      add.commute)

lemma trim_same_length:
  assumes "length (trim p s) = length s"
  shows "trim p s = s"
proof -
  have a: "length (dropWhile p (rev (dropWhile p s))) \<le> length (dropWhile p s)"
    by (metis length_dropWhile_le length_rev)
  have b: "length (dropWhile p s) \<le> length s" by (rule length_dropWhile_le)
  from assms have "length (dropWhile p (rev (dropWhile p s))) = length s"
    by (simp add: trim_def)
  with a b have l1: "length (dropWhile p s) = length s"
    and l2: "length (dropWhile p (rev (dropWhile p s))) = length (rev (dropWhile p s))"
    by simp_all
  from l1 have d1: "dropWhile p s = s" by (rule dropWhile_same_length)
  from l2 have d2: "dropWhile p (rev (dropWhile p s)) = rev (dropWhile p s)"
    by (rule dropWhile_same_length)
  show ?thesis unfolding trim_def d2 by (simp add: d1)
qed

lemma dropWhile_trim: "dropWhile p (trim p s) = trim p s"
proof (cases "trim p s = []")
  case True
  then show ?thesis by simp
next
  case False
  define t where "t = dropWhile p s"
  define n where "n = length (takeWhile p (rev t))"
  have "trim p s = rev (dropWhile p (rev t))"
    by (simp add: trim_def t_def)
  also have "dropWhile p (rev t) = drop n (rev t)"
    unfolding n_def by (rule dropWhile_eq_drop)
  also have "rev (drop n (rev t)) = take (length t - n) t"
    by (simp add: rev_drop)
  finally have u: "trim p s = take (length t - n) t" .
  with False have pos: "0 < length t - n" and "t \<noteq> []" by auto
  then have "\<not> p (hd t)" unfolding t_def by (metis hd_dropWhile)
  moreover have "hd (trim p s) = hd t" using u pos by (simp add: hd_take)
  ultimately show ?thesis using False by (simp add: dropWhile_eq_self_iff)
qed

lemma trim_idem: "trim p (trim p s) = trim p s"
proof -
  have "trim p (trim p s) = rev (dropWhile p (rev (trim p s)))"
    by (simp add: trim_def [of p "trim p s"] dropWhile_trim)
  also have "rev (trim p s) = dropWhile p (rev (dropWhile p s))"
    by (simp add: trim_def)
  also have "rev (dropWhile p (dropWhile p (rev (dropWhile p s)))) = trim p s"
    by (simp add: trim_def)
  finally show ?thesis .
qed

lemma create_eq:
  "create rawName rawValue =
     (if isValidName (trim isTabOrSpace rawName) = Inr True
         \<and> isValidValue (trim isTabOrSpace rawValue) = Inr True
      then Inr (Some \<lparr>m_name = trim isTabOrSpace rawName, m_value = trim isTabOrSpace rawValue\<rparr>)
      else Inr None)"
proof -
  obtain a where a: "isValidName (trim isTabOrSpace rawName) = Inr a"
    using isValidName_eq by blast
  obtain b where b: "isValidValue (trim isTabOrSpace rawValue) = Inr b"
    using isValidValue_no_error by blast
  have n: "(if length (trim isTabOrSpace rawName) = length rawName then rawName
            else trim isTabOrSpace rawName) = trim isTabOrSpace rawName"
    by (cases "length (trim isTabOrSpace rawName) = length rawName")
       (simp_all add: trim_same_length)
  have v: "(if length (trim isTabOrSpace rawValue) = length rawValue then rawValue
            else trim isTabOrSpace rawValue) = trim isTabOrSpace rawValue"
    by (cases "length (trim isTabOrSpace rawValue) = length rawValue")
       (simp_all add: trim_same_length)
  show ?thesis
    by (simp add: create_def Let_def a b n v)
qed



section \<open>The claims\<close>

text \<open>
  C1. \<^verbatim>\<open>HTTPHeaderField::create\<close> trims both inputs, validates the trimmed name
  and the trimmed value, returns no field if either validation fails, and
  otherwise a field that stores exactly the trimmed name and the trimmed value;
  so the result is the one of the call on the inputs already trimmed.
\<close>

theorem create_trims_then_validates:
  "create rawName rawValue =
     (if isValidName (trim isTabOrSpace rawName) = Inr True
         \<and> isValidValue (trim isTabOrSpace rawValue) = Inr True
      then Inr (Some \<lparr>m_name = trim isTabOrSpace rawName,
                       m_value = trim isTabOrSpace rawValue\<rparr>)
      else Inr None)
   \<and> create rawName rawValue
       = create (trim isTabOrSpace rawName) (trim isTabOrSpace rawValue)"
proof -
  have "create (trim isTabOrSpace rawName) (trim isTabOrSpace rawValue) = create rawName rawValue"
    by (simp only: create_eq [of rawName rawValue]
          create_eq [of "trim isTabOrSpace rawName" "trim isTabOrSpace rawValue"] trim_idem)
  then show ?thesis
    using create_eq [of rawName rawValue] by simp
qed

theorem create_trims_then_validates_witness:
  "create (ascii ''  X-Test  '') (ascii ''  value  '')
     = Inr (Some \<lparr>m_name = ascii ''X-Test'', m_value = ascii ''value''\<rparr>)
   \<and> create (ascii ''  X-Test  '') (ascii ''  value  '')
       = create (ascii ''X-Test'') (ascii ''value'')
   \<and> create (ascii ''Foo:Bar'') (ascii ''value'') = Inr None"
proof -
  have n: "trim isTabOrSpace (ascii ''  X-Test  '') = ascii ''X-Test''"
    by (simp add: trim_def ascii_def isTabOrSpace_def)
  have v: "trim isTabOrSpace (ascii ''  value  '') = ascii ''value''"
    by (simp add: trim_def ascii_def isTabOrSpace_def)
  have f: "trim isTabOrSpace (ascii ''Foo:Bar'') = ascii ''Foo:Bar''"
    by (simp add: trim_def ascii_def isTabOrSpace_def)
  have vn: "isValidName (ascii ''X-Test'') = Inr True"
    by code_simp
  have vv: "isValidValue (ascii ''value'') = Inr True"
    by code_simp
  have vf: "isValidName (ascii ''Foo:Bar'') = Inr False"
    by code_simp
  have 1: "create (ascii ''  X-Test  '') (ascii ''  value  '')
             = Inr (Some \<lparr>m_name = ascii ''X-Test'', m_value = ascii ''value''\<rparr>)"
    using create_trims_then_validates [of "ascii ''  X-Test  ''" "ascii ''  value  ''",
        THEN conjunct1]
    by (simp add: n v vn vv)
  have 2: "create (ascii ''  X-Test  '') (ascii ''  value  '')
             = create (ascii ''X-Test'') (ascii ''value'')"
    using create_trims_then_validates [of "ascii ''  X-Test  ''" "ascii ''  value  ''",
        THEN conjunct2]
    by (simp add: n v)
  have 3: "create (ascii ''Foo:Bar'') (ascii ''value'') = Inr None"
    using create_trims_then_validates [of "ascii ''Foo:Bar''" "ascii ''value''",
        THEN conjunct1]
    by (simp add: f vf)
  from 1 2 3 show ?thesis by (intro conjI)
qed

text \<open>
  C2. The code unit \<^verbatim>\<open>0x100\<close> is no token character, no delimiter and no
  obs-text. Read in \<^verbatim>\<open>Token\<close> it only ends the token: the value of the two
  code units \<^verbatim>\<open>0x61\<close>, \<^verbatim>\<open>0x100\<close> is accepted, and
  \<^verbatim>\<open>HTTPHeaderField::create\<close> makes a field of it.
\<close>

theorem wide_unit_after_token_accepted:
  "(0x100 :: char16_t) \<ge> 0x100
   \<and> \<not> isTokenCharacter 0x100 \<and> \<not> isDelimiter 0x100 \<and> \<not> isOBSText 0x100
   \<and> body [0x61, 0x100] 1 Token 0 True = Inr (Continue 1 OptionalWhitespace 0 True)
   \<and> isValidValue [0x61, 0x100] = Inr True
   \<and> create [0x58] [0x61, 0x100] = Inr (Some \<lparr>m_name = [0x58], m_value = [0x61, 0x100]\<rparr>)"
proof -
  have v: "isValidValue [0x61, 0x100] = Inr True" by code_simp
  have n: "isValidName [0x58] = Inr True" by code_simp
  have t: "trim isTabOrSpace [0x58] = [0x58]" "trim isTabOrSpace [0x61, 0x100] = [0x61, 0x100]"
    by (simp_all add: trim_def isTabOrSpace_def)
  have c: "create [0x58] [0x61, 0x100] = Inr (Some \<lparr>m_name = [0x58], m_value = [0x61, 0x100]\<rparr>)"
    by (simp add: create_eq t v n)
  have b: "body [0x61, 0x100] 1 Token 0 True = Inr (Continue 1 OptionalWhitespace 0 True)"
    by (simp add: body_def characterAt_def isTokenCharacter_def)
  have k: "\<not> isTokenCharacter 0x100 \<and> \<not> isDelimiter 0x100 \<and> \<not> isOBSText 0x100"
    using wide_unit_classes [of "0x100"] by simp
  from v c b k show ?thesis by simp
qed

text \<open>
  C3. The character that ends a token is consumed without being looked at: in
  the value \<^verbatim>\<open>a;\<close> the semicolon is read in \<^verbatim>\<open>Token\<close>, is not a token
  character, and the pass goes on to \<^verbatim>\<open>OptionalWhitespace\<close> at the same
  index, although a pass that reads it in \<^verbatim>\<open>OptionalWhitespace\<close> returns
  false. The value is accepted, and so are a token ended by a line feed and
  \<^verbatim>\<open>a(b\<close>; the value \<^verbatim>\<open>a ;\<close> is rejected.
\<close>

theorem token_terminator_unchecked:
  "isValidValue (ascii ''a;'') = Inr True
   \<and> body (ascii ''a;'') 0 OptionalWhitespace 0 False = Inr (Continue 0 Token 0 True)
   \<and> \<not> isTokenCharacter 0x3B
   \<and> body (ascii ''a;'') 1 Token 0 True = Inr (Continue 1 OptionalWhitespace 0 True)
   \<and> body (ascii ''a;'') 1 OptionalWhitespace 0 True = Inr (Return False)
   \<and> isValidValue (ascii ''a ;'') = Inr False
   \<and> isValidValue [0x61, 0x0A] = Inr True
   \<and> isValidValue (ascii ''a(b'') = Inr True"
proof -
  have 1: "isValidValue (ascii ''a;'') = Inr True"
    and 2: "body (ascii ''a;'') 0 OptionalWhitespace 0 False = Inr (Continue 0 Token 0 True)"
    and 3: "\<not> isTokenCharacter 0x3B"
    and 4: "body (ascii ''a;'') 1 Token 0 True = Inr (Continue 1 OptionalWhitespace 0 True)"
    and 5: "body (ascii ''a;'') 1 OptionalWhitespace 0 True = Inr (Return False)"
    and 6: "isValidValue (ascii ''a ;'') = Inr False"
    and 7: "isValidValue [0x61, 0x0A] = Inr True"
    and 8: "isValidValue (ascii ''a(b'') = Inr True"
    by code_simp+
  from 1 2 3 4 5 6 7 8 show ?thesis by (intro conjI)
qed

text \<open>
  C4. Once the last character is read, the value validator accepts exactly
  when the state is \<^verbatim>\<open>OptionalWhitespace\<close> or \<^verbatim>\<open>Token\<close> and
  \<^verbatim>\<open>hadNonWhitespace\<close> is set: a scan that ends in \<^verbatim>\<open>QuotedString\<close> or
  \<^verbatim>\<open>Comment\<close> rejects, and so does a value that is empty or all whitespace.
\<close>

theorem termination_rule:
  "(length value \<le> i \<longrightarrow>
      loop value i state d h = Inr ((state = OptionalWhitespace \<or> state = Token) \<and> h))
   \<and> (isValidValue value = Inr True \<longleftrightarrow>
        (\<exists>state' d' h'. reachable value (length value) state' d' h'
           \<and> (state' = OptionalWhitespace \<or> state' = Token) \<and> h'))
   \<and> ((\<forall>c \<in> set value. isWhitespace c) \<longrightarrow> isValidValue value = Inr False)"
proof (intro conjI impI)
  assume "length value \<le> i"
  then show "loop value i state d h = Inr ((state = OptionalWhitespace \<or> state = Token) \<and> h)"
    by (simp add: loop_at_end finish_eq)
next
  show "isValidValue value = Inr True \<longleftrightarrow>
        (\<exists>state' d' h'. reachable value (length value) state' d' h'
           \<and> (state' = OptionalWhitespace \<or> state' = Token) \<and> h')"
  proof
    assume "isValidValue value = Inr True"
    then have "loop value 0 OptionalWhitespace 0 False = Inr True"
      by (simp add: isValidValue_def)
    from loop_accepts_final [OF reachable.start this]
    show "\<exists>state' d' h'. reachable value (length value) state' d' h'
           \<and> (state' = OptionalWhitespace \<or> state' = Token) \<and> h'"
      by (simp add: finish_eq)
  next
    assume "\<exists>state' d' h'. reachable value (length value) state' d' h'
           \<and> (state' = OptionalWhitespace \<or> state' = Token) \<and> h'"
    then obtain state' d' h' where r: "reachable value (length value) state' d' h'"
      and f: "(state' = OptionalWhitespace \<or> state' = Token) \<and> h'" by blast
    have "isValidValue value = loop value (length value) state' d' h'"
      using loop_reachable [OF r] by simp
    also have "\<dots> = Inr True" using f by (simp add: loop_at_end finish_eq)
    finally show "isValidValue value = Inr True" .
  qed
next
  assume "\<forall>c \<in> set value. isWhitespace c"
  then show "isValidValue value = Inr False"
    by (simp add: isValidValue_def loop_whitespace_only)
qed

theorem termination_rule_witness:
  "isValidValue (ascii ''   '') = Inr False
   \<and> loop [] 0 OptionalWhitespace 0 False = Inr False
   \<and> isValidValue [] = Inr False
   \<and> isValidValue (ascii ''simple-token'') = Inr True
   \<and> (\<exists>state' d' h'. reachable (ascii ''simple-token'') (length (ascii ''simple-token'')) state' d' h'
          \<and> (state' = OptionalWhitespace \<or> state' = Token) \<and> h')
   \<and> isValidValue ([0x22] @ ascii ''quoted value'' @ [0x22]) = Inr True
   \<and> isValidValue ([0x22] @ ascii ''unterminated'') = Inr False"
proof -
  have w: "\<forall>c \<in> set (ascii ''   ''). isWhitespace c"
    by (simp add: ascii_def isWhitespace_def)
  have 1: "isValidValue (ascii ''   '') = Inr False"
    using termination_rule [of "ascii ''   ''" 0 OptionalWhitespace 0 False,
        THEN conjunct2, THEN conjunct2] w
    by simp
  have 2: "loop [] 0 OptionalWhitespace 0 False = Inr False"
    using termination_rule [of "[]" 0 OptionalWhitespace 0 False, THEN conjunct1]
    by simp
  have 3: "isValidValue [] = Inr False"
    using termination_rule [of "[]" 0 OptionalWhitespace 0 False,
        THEN conjunct2, THEN conjunct2]
    by simp
  have 4: "isValidValue (ascii ''simple-token'') = Inr True"
    by code_simp
  have 5: "\<exists>state' d' h'. reachable (ascii ''simple-token'') (length (ascii ''simple-token'')) state' d' h'
          \<and> (state' = OptionalWhitespace \<or> state' = Token) \<and> h'"
    using termination_rule [of "ascii ''simple-token''" 0 OptionalWhitespace 0 False,
        THEN conjunct2, THEN conjunct1] 4
    by simp
  have 6: "isValidValue ([0x22] @ ascii ''quoted value'' @ [0x22]) = Inr True"
    by code_simp
  have 7: "isValidValue ([0x22] @ ascii ''unterminated'') = Inr False"
    by code_simp
  from 1 2 3 4 5 6 7 show ?thesis by (intro conjI)
qed



text \<open>
  C6. The name validator accepts exactly the names that are not empty and
  consist of token characters only: the empty name is rejected, and so is a
  name with a character that is not a token character, a delimiter for one.
\<close>

theorem isValidName_iff:
  "isValidName name = Inr (name \<noteq> [] \<and> (\<forall>c \<in> set name. isTokenCharacter c))
   \<and> isValidName [] = Inr False
   \<and> (c \<in> set name \<and> \<not> isTokenCharacter c \<longrightarrow> isValidName name = Inr False)
   \<and> (c \<in> set name \<and> isDelimiter c \<longrightarrow> isValidName name = Inr False)"
proof -
  show ?thesis
    using delimiter_not_token [of c] by (auto simp: isValidName_eq)
qed

theorem isValidName_iff_witness:
  "isValidName (ascii ''X-Custom-Header'') = Inr True
   \<and> isValidName (ascii ''Foo:Bar'') = Inr False
   \<and> isValidName [] = Inr False
   \<and> 0x3A \<in> set (ascii ''Foo:Bar'') \<and> isDelimiter 0x3A \<and> \<not> isTokenCharacter 0x3A"
proof -
  have d: "isDelimiter 0x3A"
    by (simp add: isDelimiter_def isDelimiter_LChar_def)
  have m: "0x3A \<in> set (ascii ''Foo:Bar'')"
    by (simp add: ascii_def)
  have t: "\<forall>c \<in> set (ascii ''X-Custom-Header''). isTokenCharacter c"
    by (simp add: ascii_def isTokenCharacter_def isTokenCharacter_LChar_def
          isASCIIAlpha_def isASCIIDigit_def)
  have n: "ascii ''X-Custom-Header'' \<noteq> []"
    by (simp add: ascii_def)
  have 1: "isValidName (ascii ''X-Custom-Header'') = Inr True"
    using isValidName_iff [of "ascii ''X-Custom-Header''" "0x3A", THEN conjunct1] t n
    by simp
  have 2: "isValidName (ascii ''Foo:Bar'') = Inr False"
    using isValidName_iff [of "ascii ''Foo:Bar''" "0x3A", THEN conjunct2, THEN conjunct2,
        THEN conjunct2] m d
    by simp
  have 3: "isValidName [] = Inr False"
    using isValidName_iff [of "[]" "0x3A", THEN conjunct1] by simp
  from 1 2 3 m d delimiter_not_token [OF d] show ?thesis by (intro conjI)
qed

text \<open>
  C7. In \<^verbatim>\<open>Comment\<close> an opening parenthesis increments the one counter
  \<^verbatim>\<open>commentDepth\<close>, a closing one decrements it, and the state goes back to
  \<^verbatim>\<open>OptionalWhitespace\<close> exactly when the counter is then 0. Comments nested
  to any depth \<open>n\<close> that the counter can hold are accepted; so is
  \<^verbatim>\<open>token (a nested (comment) here) token\<close>, and
  \<^verbatim>\<open>token (unterminated\<close> is rejected.
\<close>

theorem comment_nesting:
  "(i < length value \<and> value ! i = 0x28 \<longrightarrow>
      loop value i Comment d h = loop value (i + 1) Comment (d + 1) h)
   \<and> (i < length value \<and> value ! i = 0x29 \<longrightarrow>
      loop value i Comment d h
        = loop value (i + 1) (if d - 1 = 0 then OptionalWhitespace else Comment) (d - 1) h)
   \<and> (0 < n \<and> n < 2 ^ 64 \<longrightarrow>
        isValidValue (replicate n 0x28 @ replicate n 0x29) = Inr True)
   \<and> isValidValue (ascii ''token (a nested (comment) here) token'') = Inr True
   \<and> isValidValue (ascii ''token (unterminated'') = Inr False"
proof -
  have 1: "isValidValue (ascii ''token (a nested (comment) here) token'') = Inr True"
    by code_simp
  have 2: "isValidValue (ascii ''token (unterminated'') = Inr False"
    by code_simp
  show ?thesis
    using loop_open_paren [of i "value" d h] loop_close_paren [of i "value" d h]
      nested_comment_accepted [of n] 1 2
    by (intro conjI impI) blast+
qed

theorem comment_nesting_witness:
  "loop (ascii ''((a))'') 1 Comment 1 True = loop (ascii ''((a))'') 2 Comment 2 True
   \<and> loop (ascii ''((a))'') 3 Comment 2 True = loop (ascii ''((a))'') 4 Comment 1 True
   \<and> loop (ascii ''((a))'') 4 Comment 1 True = loop (ascii ''((a))'') 5 OptionalWhitespace 0 True
   \<and> isValidValue (replicate 3 0x28 @ replicate 3 0x29) = Inr True
   \<and> isValidValue (ascii ''token (a nested (comment) here) token'') = Inr True
   \<and> isValidValue (ascii ''token (unterminated'') = Inr False"
proof -
  define v where "v = ascii ''((a))''"
  have l: "length v = 5"
    and c: "v ! 1 = 0x28" "v ! 3 = 0x29" "v ! 4 = 0x29"
    by (simp_all add: v_def ascii_def)
  have 1: "loop v 1 Comment 1 True = loop v 2 Comment 2 True"
    using comment_nesting [of 1 v 1 True 3, THEN conjunct1] l c
    by (simp add: numeral_2_eq_2)
  have 2: "loop v 3 Comment 2 True = loop v 4 Comment 1 True"
    using comment_nesting [of 3 v 2 True 3, THEN conjunct2, THEN conjunct1] l c
    by simp
  have 3: "loop v 4 Comment 1 True = loop v 5 OptionalWhitespace 0 True"
    using comment_nesting [of 4 v 1 True 3, THEN conjunct2, THEN conjunct1] l c
    by simp
  have 4: "isValidValue (replicate 3 0x28 @ replicate 3 0x29) = Inr True"
    using comment_nesting [of 4 v 1 True 3, THEN conjunct2, THEN conjunct2, THEN conjunct1]
    by simp
  have 5: "isValidValue (ascii ''token (a nested (comment) here) token'') = Inr True"
    and 6: "isValidValue (ascii ''token (unterminated'') = Inr False"
    using comment_nesting [of 4 v 1 True 3] by simp_all
  from 1 2 3 4 5 6 show ?thesis unfolding v_def by (intro conjI)
qed




text \<open>
  C9. In every configuration the scan of a value reaches (a value whose length
  a \<^verbatim>\<open>size_t\<close> can hold), \<^verbatim>\<open>commentDepth\<close> is positive exactly when the
  state is \<^verbatim>\<open>Comment\<close>. So the decrement in \<^verbatim>\<open>Comment\<close> is taken from a
  counter that is at least 1 and does not wrap around, the counter is 0 when
  an opening parenthesis is read in \<^verbatim>\<open>OptionalWhitespace\<close>, and the assertion
  there holds. The scan from a reached configuration gives the result of the
  whole scan.
\<close>

theorem commentDepth_invariant:
  "reachable value i state d h \<and> length value < 2 ^ 64 \<longrightarrow>
     (0 < d \<longleftrightarrow> state = Comment)
     \<and> (state = Comment \<longrightarrow> 1 \<le> unat d \<and> unat (d - 1) = unat d - 1)
     \<and> (state = OptionalWhitespace \<longrightarrow> d = 0)
     \<and> body value i state d h \<noteq> Inl AssertionFailed
     \<and> loop value i state d h = isValidValue value"
proof (intro impI)
  assume a: "reachable value i state d h \<and> length value < 2 ^ 64"
  then have r: "reachable value i state d h" and l: "length value < 2 ^ 64" by simp_all
  have z: "state \<noteq> Comment \<longrightarrow> d = 0" using r by (rule reachable_depth_zero)
  have p: "state = Comment \<longrightarrow> d \<noteq> 0" using reachable_depth_bound [OF r l] by simp
  have 1: "0 < d \<longleftrightarrow> state = Comment" using z p by (auto simp: word_neq_0_conv [symmetric])
  have 2: "state = Comment \<longrightarrow> 1 \<le> unat d \<and> unat (d - 1) = unat d - 1"
  proof
    assume "state = Comment"
    with p have nz: "d \<noteq> 0" by simp
    then have "0 < unat d" by (simp add: unat_gt_0)
    with unat_minus_one [OF nz] show "1 \<le> unat d \<and> unat (d - 1) = unat d - 1" by simp
  qed
  have 3: "state = OptionalWhitespace \<longrightarrow> d = 0" using z by simp
  have 4: "body value i state d h \<noteq> Inl AssertionFailed"
    using z by (intro body_OptionalWhitespace_no_assert) auto
  have 5: "loop value i state d h = isValidValue value" using r by (rule loop_reachable)
  from 1 2 3 4 5
  show "(0 < d \<longleftrightarrow> state = Comment)
     \<and> (state = Comment \<longrightarrow> 1 \<le> unat d \<and> unat (d - 1) = unat d - 1)
     \<and> (state = OptionalWhitespace \<longrightarrow> d = 0)
     \<and> body value i state d h \<noteq> Inl AssertionFailed
     \<and> loop value i state d h = isValidValue value"
    by (intro conjI)
qed

theorem commentDepth_invariant_witness:
  "reachable (ascii ''(a(b)) ('') 3 Comment 2 True
   \<and> length (ascii ''(a(b)) ('') < 2 ^ 64
   \<and> (0 :: 64 word) < 2
   \<and> 1 \<le> unat (2 :: 64 word) \<and> unat (2 - 1 :: 64 word) = unat (2 :: 64 word) - 1
   \<and> reachable (ascii ''(a(b)) ('') 7 OptionalWhitespace 0 True
   \<and> body (ascii ''(a(b)) ('') 7 OptionalWhitespace 0 True = Inr (Continue 7 Comment 1 True)
   \<and> body (ascii ''(a(b)) ('') 7 OptionalWhitespace 0 True \<noteq> Inl AssertionFailed
   \<and> loop (ascii ''(a(b)) ('') 3 Comment 2 True = isValidValue (ascii ''(a(b)) ('')"
proof -
  define v where "v = ascii ''(a(b)) (''"
  have l: "length v < 2 ^ 64" by (simp add: v_def ascii_def)
  have r3: "reachable v 3 Comment 2 True" and r7: "reachable v 7 OptionalWhitespace 0 True"
    using reachable_example by (simp_all add: v_def)
  have b: "body v 7 OptionalWhitespace 0 True = Inr (Continue 7 Comment 1 True)"
    by (simp add: v_def ascii_def body_def characterAt_def isWhitespace_def isTokenCharacter_def
          isTokenCharacter_LChar_def isASCIIAlpha_def isASCIIDigit_def)
  have 1: "(0 :: 64 word) < 2 \<and> 1 \<le> unat (2 :: 64 word)
      \<and> unat (2 - 1 :: 64 word) = unat (2 :: 64 word) - 1
      \<and> loop v 3 Comment 2 True = isValidValue v"
    using commentDepth_invariant [of v 3 Comment 2 True] r3 l by simp
  have 2: "body v 7 OptionalWhitespace 0 True \<noteq> Inl AssertionFailed"
    using commentDepth_invariant [of v 7 OptionalWhitespace 0 True] r7 l by simp
  from 1 2 r3 r7 l b show ?thesis unfolding v_def by (intro conjI) simp_all
qed

text \<open>
  C10. On the code units below \<^verbatim>\<open>0x100\<close> the overloads for \<^verbatim>\<open>char16_t\<close>
  agree with the overloads for \<^verbatim>\<open>LChar\<close>; from \<^verbatim>\<open>0x80\<close> to \<^verbatim>\<open>0xFF\<close> all
  four are false.
\<close>

theorem overloads_agree:
  fixes c :: char16_t
  assumes "c < 0x100"
  shows "isTokenCharacter c = isTokenCharacter_LChar (ucast c)
       \<and> isDelimiter c = isDelimiter_LChar (ucast c)
       \<and> (0x80 \<le> c \<longrightarrow>
            \<not> isTokenCharacter c \<and> \<not> isTokenCharacter_LChar (ucast c)
          \<and> \<not> isDelimiter c \<and> \<not> isDelimiter_LChar (ucast c))"
proof (cases "c < 0x80")
  case True
  then have "\<not> 0x80 \<le> c" by simp
  with True show ?thesis by (simp add: isTokenCharacter_def isDelimiter_def)
next
  case False
  then have hi: "0x80 \<le> c" by simp
  have "\<not> (ucast c :: LChar) < 0x80"
    using ucast_LChar_high [OF hi assms] .
  then have "\<not> isTokenCharacter_LChar (ucast c)" and "\<not> isDelimiter_LChar (ucast c)"
    using isTokenCharacter_LChar_ascii isDelimiter_LChar_ascii by blast+
  with False show ?thesis by (simp add: isTokenCharacter_def isDelimiter_def)
qed

theorem overloads_agree_witness:
  "(0xC1 :: char16_t) < 0x100 \<and> 0x80 \<le> (0xC1 :: char16_t)
   \<and> isTokenCharacter 0xC1 = isTokenCharacter_LChar (ucast (0xC1 :: char16_t))
   \<and> isDelimiter 0xC1 = isDelimiter_LChar (ucast (0xC1 :: char16_t))
   \<and> \<not> isTokenCharacter 0xC1 \<and> \<not> isTokenCharacter_LChar (ucast (0xC1 :: char16_t))
   \<and> (0x41 :: char16_t) < 0x100
   \<and> isTokenCharacter 0x41 \<and> isTokenCharacter_LChar (ucast (0x41 :: char16_t))"
proof -
  have a: "(0xC1 :: char16_t) < 0x100" and b: "(0x41 :: char16_t) < 0x100" by simp_all
  have t: "isTokenCharacter_LChar (ucast (0x41 :: char16_t))"
    by (simp add: isTokenCharacter_LChar_def isASCIIAlpha_def)
  show ?thesis
    using overloads_agree [OF a] overloads_agree [OF b] t by simp
qed

end
